theory Spec2Isabelle
  imports Main
begin

section \<open>Pointers, failures and checked arrays\<close>

text \<open>
  The list lives in memory that \<open>new\<close> hands out and nothing ever frees: the model keeps
  the objects created so far in a list, and the address of an object is its position
  there. A \<open>Node*\<close> is an optional address, \<open>None\<close> being \<open>nullptr\<close>.

  Whatever C++ leaves undefined is a failure value of the model: indexing a vector or a
  local array outside its bounds, going through a null pointer, reading a local that was
  never written, going through an address nothing was allocated at, and leaving a
  function that returns a value without a \<open>return\<close>.
\<close>

type_synonym addr = nat

type_synonym link = "addr option"

datatype error = OutOfRange | NullDeref | Uninitialized | BadPointer | NoReturn

definition vec_get :: "'a list \<Rightarrow> int \<Rightarrow> error + 'a" where
  "vec_get v n = (if 0 \<le> n \<and> nat n < length v then Inr (v ! nat n) else Inl OutOfRange)"

definition vec_set :: "'a list \<Rightarrow> int \<Rightarrow> 'a \<Rightarrow> error + 'a list" where
  "vec_set v n x = (if 0 \<le> n \<and> nat n < length v then Inr (v[nat n := x]) else Inl OutOfRange)"

definition kMaxHeight :: int where
  "kMaxHeight = 12"

section \<open>Nodes\<close>

text \<open>
  \<open>struct Node\<close> has the key and the vector \<open>next_\<close>. A name cannot end in an
  underscore here, so the members lose theirs and \<open>next_\<close> is \<open>nextv\<close>. Keys are
  integers (the code compares them with \<open><\<close> and \<open>==\<close> and builds the head's key
  from \<open>0\<close>).
\<close>

record Node =
  key :: int
  nextv :: "link list"

text \<open>
  The constructor \<open>Node(k, height)\<close> runs \<open>for (i = 0; i < height; i++) next_[i] = nullptr\<close>
  on the vector as it was default-constructed. The number of elements the vector holds
  when that loop starts is the parameter \<open>room\<close> of the model, a function of the height
  asked for. The source never resizes the vector, so the program as written is
  \<open>room = as_written\<close>, no element at all; \<open>resized\<close> is the vector the comment in the
  constructor asks for (\<open>resize the next_ array of size height\<close>). A result proved for
  every \<open>room\<close> holds for the program as written in particular.
\<close>

definition as_written :: "int \<Rightarrow> nat" where
  "as_written height = 0"

definition resized :: "int \<Rightarrow> nat" where
  "resized height = nat height"

function init_next :: "link list \<Rightarrow> int \<Rightarrow> int \<Rightarrow> error + link list" where
  "init_next v i height =
     (if i < height
      then (case vec_set v i None of
              Inl e \<Rightarrow> Inl e
            | Inr v' \<Rightarrow> init_next v' (i + 1) height)
      else Inr v)"
  by pat_completeness auto
termination
  by (relation "measure (\<lambda>(v, i, height). nat (height - i))") auto

declare init_next.simps [simp del]

definition Node_ctor :: "(int \<Rightarrow> nat) \<Rightarrow> int \<Rightarrow> int \<Rightarrow> error + Node" where
  "Node_ctor room k height =
     (case init_next (replicate (room height) None) 0 height of
        Inl e \<Rightarrow> Inl e
      | Inr v \<Rightarrow> Inr \<lparr>key = k, nextv = v\<rparr>)"

text \<open>\<open>Node::Next(n)\<close> and \<open>Node::SetNext(n, x)\<close>: \<open>next_[n]\<close>, read and written.\<close>

definition Next :: "Node \<Rightarrow> int \<Rightarrow> error + link" where
  "Next nd n = vec_get (nextv nd) n"

definition SetNext :: "Node \<Rightarrow> int \<Rightarrow> link \<Rightarrow> error + Node" where
  "SetNext nd n x =
     (case vec_set (nextv nd) n x of
        Inl e \<Rightarrow> Inl e
      | Inr v \<Rightarrow> Inr (nd\<lparr>nextv := v\<rparr>))"

section \<open>The height of a new node\<close>

text \<open>
  \<open>util/random.h\<close> is not part of the sources. The generator is a parameter: \<open>'r\<close> is
  its state, and \<open>U n r\<close> is what \<open>rnd_.Uniform(n)\<close> returns in state \<open>r\<close>, with the state
  after the call. \<open>RandomHeight\<close> calls \<open>Uniform(4)\<close> before it looks at \<open>level\<close>, so a
  draw is made on every test of the loop condition.
\<close>

function RandomHeight_loop :: "(int \<Rightarrow> 'r \<Rightarrow> int \<times> 'r) \<Rightarrow> int \<Rightarrow> 'r \<Rightarrow> int \<times> 'r" where
  "RandomHeight_loop U level r =
     (case U 4 r of (x, r') \<Rightarrow>
        if x = 0 \<and> level < kMaxHeight
        then RandomHeight_loop U (level + 1) r'
        else (level, r'))"
  by pat_completeness auto
termination
  by (relation "measure (\<lambda>(U, level, r). nat (kMaxHeight - level))") auto

declare RandomHeight_loop.simps [simp del]

definition RandomHeight :: "(int \<Rightarrow> 'r \<Rightarrow> int \<times> 'r) \<Rightarrow> 'r \<Rightarrow> int \<times> 'r" where
  "RandomHeight U r = RandomHeight_loop U 1 r"

section \<open>The list\<close>

text \<open>
  \<open>class SkipList\<close>: the comparator (stored, and consulted by no operation), the head,
  \<open>max_height_\<close>, the generator, and the objects allocated so far. \<open>head_\<close> comes from
  \<open>new\<close>, so it is an address.
\<close>

record ('c, 'r) SkipList =
  compare :: 'c
  head :: addr
  max_height :: int
  rnd :: 'r
  nodes :: "Node list"

definition deref :: "Node list \<Rightarrow> link \<Rightarrow> error + Node" where
  "deref h p =
     (case p of
        None \<Rightarrow> Inl NullDeref
      | Some a \<Rightarrow> if a < length h then Inr (h ! a) else Inl BadPointer)"

text \<open>\<open>p->key\<close>, \<open>p->Next(n)\<close> and \<open>p->SetNext(n, x)\<close> for a pointer \<open>p\<close>.\<close>

definition ptr_key :: "Node list \<Rightarrow> link \<Rightarrow> error + int" where
  "ptr_key h p = (case deref h p of Inl e \<Rightarrow> Inl e | Inr nd \<Rightarrow> Inr (key nd))"

definition ptr_Next :: "Node list \<Rightarrow> link \<Rightarrow> int \<Rightarrow> error + link" where
  "ptr_Next h p n = (case deref h p of Inl e \<Rightarrow> Inl e | Inr nd \<Rightarrow> Next nd n)"

definition ptr_SetNext :: "Node list \<Rightarrow> link \<Rightarrow> int \<Rightarrow> link \<Rightarrow> error + Node list" where
  "ptr_SetNext h p n x =
     (case p of
        None \<Rightarrow> Inl NullDeref
      | Some a \<Rightarrow>
          (case deref h p of
             Inl e \<Rightarrow> Inl e
           | Inr nd \<Rightarrow>
               (case SetNext nd n x of
                  Inl e \<Rightarrow> Inl e
                | Inr nd' \<Rightarrow> Inr (h[a := nd']))))"

text \<open>\<open>NewNode(key, height)\<close> is \<open>new Node(key, height)\<close>: the address and the new memory.\<close>

definition NewNode :: "(int \<Rightarrow> nat) \<Rightarrow> Node list \<Rightarrow> int \<Rightarrow> int \<Rightarrow> error + addr \<times> Node list" where
  "NewNode room h k height =
     (case Node_ctor room k height of
        Inl e \<Rightarrow> Inl e
      | Inr nd \<Rightarrow> Inr (length h, h @ [nd]))"

text \<open>
  The constructor. \<open>Rnd\<close> is the constructor of the generator, a parameter like \<open>U\<close>.
  The members are initialised in the order of their declarations, the head first.
\<close>

definition SkipList_ctor ::
  "(int \<Rightarrow> nat) \<Rightarrow> (int \<Rightarrow> 'r) \<Rightarrow> 'c \<Rightarrow> error + ('c, 'r) SkipList" where
  "SkipList_ctor room Rnd cmp =
     (case Node_ctor room 0 kMaxHeight of
        Inl e \<Rightarrow> Inl e
      | Inr hn \<Rightarrow>
          Inr \<lparr>compare = cmp, head = 0, max_height = 1, rnd = Rnd 114514, nodes = [hn]\<rparr>)"

subsection \<open>The search\<close>

text \<open>
  The inner loop of all three operations,
  \<open>while (start->Next(height) != nullptr && start->Next(height)->key < key) start = start->Next(height)\<close>.
  Nothing bounds it on a cyclic structure, so not returning is the value \<open>None\<close>.
  The cursor \<open>start\<close> begins at the head and only moves to a pointer just tested against
  \<open>nullptr\<close>: it is an address.
\<close>

partial_function (option) advance :: "Node list \<Rightarrow> int \<Rightarrow> int \<Rightarrow> addr \<Rightarrow> (error + addr) option" where
  "advance h k height start =
     (case ptr_Next h (Some start) height of
        Inl e \<Rightarrow> Some (Inl e)
      | Inr None \<Rightarrow> Some (Inr start)
      | Inr (Some nx) \<Rightarrow>
          (case ptr_key h (Some nx) of
             Inl e \<Rightarrow> Some (Inl e)
           | Inr k' \<Rightarrow> if k' < k then advance h k height nx else Some (Inr start)))"

declare advance.simps [code]

text \<open>
  \<open>Node* preNode[kMaxHeight]\<close> is a local array that nothing initialises: an element is
  \<open>None\<close> until it is written, and reading it then is a failure.
\<close>

definition read_local :: "addr option list \<Rightarrow> int \<Rightarrow> error + addr" where
  "read_local preNode i =
     (case vec_get preNode i of
        Inl e \<Rightarrow> Inl e
      | Inr None \<Rightarrow> Inl Uninitialized
      | Inr (Some p) \<Rightarrow> Inr p)"

text \<open>
  The outer loop of \<open>Insert\<close> and of \<open>Remove\<close>, the same text in both:
  \<open>for (height = max_height_; height >= 1; height--) { ...; preNode[height] = start; }\<close>.
\<close>

function descend ::
  "Node list \<Rightarrow> int \<Rightarrow> int \<Rightarrow> addr \<Rightarrow> addr option list \<Rightarrow> (error + addr \<times> addr option list) option" where
  "descend h k height start preNode =
     (if height \<ge> 1
      then (case advance h k height start of
              None \<Rightarrow> None
            | Some (Inl e) \<Rightarrow> Some (Inl e)
            | Some (Inr start') \<Rightarrow>
                (case vec_set preNode height (Some start') of
                   Inl e \<Rightarrow> Some (Inl e)
                 | Inr preNode' \<Rightarrow> descend h k (height - 1) start' preNode'))
      else Some (Inr (start, preNode)))"
  by pat_completeness auto
termination
  by (relation "measure (\<lambda>(h, k, height, start, preNode). nat height)") auto

declare descend.simps [simp del]

text \<open>The outer loop of \<open>Contains\<close>, from \<open>kMaxHeight\<close> and with no \<open>preNode\<close>.\<close>

function scan :: "Node list \<Rightarrow> int \<Rightarrow> int \<Rightarrow> addr \<Rightarrow> (error + addr) option" where
  "scan h k height start =
     (if height \<ge> 1
      then (case advance h k height start of
              None \<Rightarrow> None
            | Some (Inl e) \<Rightarrow> Some (Inl e)
            | Some (Inr start') \<Rightarrow> scan h k (height - 1) start')
      else Some (Inr start))"
  by pat_completeness auto
termination
  by (relation "measure (\<lambda>(h, k, height, start). nat height)") auto

declare scan.simps [simp del]

text \<open>The test \<open>start != nullptr && start->key == key\<close>.\<close>

definition key_is :: "Node list \<Rightarrow> link \<Rightarrow> int \<Rightarrow> error + bool" where
  "key_is h p k =
     (case p of
        None \<Rightarrow> Inr False
      | Some a \<Rightarrow> (case ptr_key h p of Inl e \<Rightarrow> Inl e | Inr k' \<Rightarrow> Inr (k' = k)))"

text \<open>
  \<open>Insert\<close> and \<open>Remove\<close> begin with the same lines (176 to 187 and 216 to 227): the
  search from \<open>max_height_\<close> into a fresh \<open>preNode\<close>, then \<open>start = start->Next(0)\<close>.
  \<open>lookup\<close> is those lines; it returns the pointer read at level 0 and \<open>preNode\<close>.
\<close>

definition lookup :: "('c, 'r) SkipList \<Rightarrow> int \<Rightarrow> (error + link \<times> addr option list) option" where
  "lookup s k =
     (case descend (nodes s) k (max_height s) (head s) (replicate (nat kMaxHeight) None) of
        None \<Rightarrow> None
      | Some (Inl e) \<Rightarrow> Some (Inl e)
      | Some (Inr (start, preNode)) \<Rightarrow>
          (case ptr_Next (nodes s) (Some start) 0 of
             Inl e \<Rightarrow> Some (Inl e)
           | Inr p \<Rightarrow> Some (Inr (p, preNode))))"

subsection \<open>Contains\<close>

definition Contains :: "('c, 'r) SkipList \<Rightarrow> int \<Rightarrow> (error + bool) option" where
  "Contains s k =
     (case scan (nodes s) k kMaxHeight (head s) of
        None \<Rightarrow> None
      | Some (Inl e) \<Rightarrow> Some (Inl e)
      | Some (Inr start) \<Rightarrow>
          (case ptr_Next (nodes s) (Some start) 0 of
             Inl e \<Rightarrow> Some (Inl e)
           | Inr p \<Rightarrow>
               (case key_is (nodes s) p k of
                  Inl e \<Rightarrow> Some (Inl e)
                | Inr b \<Rightarrow> Some (Inr b))))"

subsection \<open>Insert\<close>

text \<open>
  \<open>for (i = max_height_ + 1; i <= random_height; i++) head_->SetNext(i, NewNode(key, i))\<close>.
\<close>

function grow ::
  "(int \<Rightarrow> nat) \<Rightarrow> ('c, 'r) SkipList \<Rightarrow> int \<Rightarrow> int \<Rightarrow> int \<Rightarrow> error + ('c, 'r) SkipList" where
  "grow room s k i random_height =
     (if i \<le> random_height
      then (case NewNode room (nodes s) k i of
              Inl e \<Rightarrow> Inl e
            | Inr (a, h1) \<Rightarrow>
                (case ptr_SetNext h1 (Some (head s)) i (Some a) of
                   Inl e \<Rightarrow> Inl e
                 | Inr h2 \<Rightarrow> grow room (s\<lparr>nodes := h2\<rparr>) k (i + 1) random_height))
      else Inr s)"
  by pat_completeness auto
termination
  by (relation "measure (\<lambda>(room, s, k, i, random_height). nat (random_height + 1 - i))") auto

declare grow.simps [simp del]

text \<open>
  The loop that links the key in, \<open>for (i = 1; i <= max_height_; i++)\<close>, with one new
  node for each \<open>i\<close>:
  \<open>newNode = NewNode(key, i); newNode->SetNext(i, preNode[i]->Next(i)); preNode[i]->SetNext(i, newNode)\<close>.
\<close>

function link_in ::
  "(int \<Rightarrow> nat) \<Rightarrow> ('c, 'r) SkipList \<Rightarrow> int \<Rightarrow> addr option list \<Rightarrow> int \<Rightarrow> error + ('c, 'r) SkipList" where
  "link_in room s k preNode i =
     (if i \<le> max_height s
      then (case NewNode room (nodes s) k i of
              Inl e \<Rightarrow> Inl e
            | Inr (newNode, h1) \<Rightarrow>
                (case read_local preNode i of
                   Inl e \<Rightarrow> Inl e
                 | Inr p \<Rightarrow>
                     (case ptr_Next h1 (Some p) i of
                        Inl e \<Rightarrow> Inl e
                      | Inr nx \<Rightarrow>
                          (case ptr_SetNext h1 (Some newNode) i nx of
                             Inl e \<Rightarrow> Inl e
                           | Inr h2 \<Rightarrow>
                               (case ptr_SetNext h2 (Some p) i (Some newNode) of
                                  Inl e \<Rightarrow> Inl e
                                | Inr h3 \<Rightarrow> link_in room (s\<lparr>nodes := h3\<rparr>) k preNode (i + 1))))))
      else Inr s)"
  by pat_completeness auto
termination
  by (relation "measure (\<lambda>(room, s, k, preNode, i). nat (max_height s + 1 - i))") auto

declare link_in.simps [simp del]

text \<open>
  What \<open>Insert\<close> does once the key was not found, lines 194 to 209: the draw, the new
  levels at the head with the assignment to \<open>max_height_\<close>, and the linking loop.
\<close>

definition Insert_new ::
  "(int \<Rightarrow> nat) \<Rightarrow> (int \<Rightarrow> 'r \<Rightarrow> int \<times> 'r) \<Rightarrow> ('c, 'r) SkipList \<Rightarrow> int \<Rightarrow> addr option list
     \<Rightarrow> error + ('c, 'r) SkipList" where
  "Insert_new room U s k preNode =
     (case RandomHeight U (rnd s) of (random_height, r') \<Rightarrow>
        (case (if random_height > max_height s
               then (case grow room (s\<lparr>rnd := r'\<rparr>) k (max_height s + 1) random_height of
                       Inl e \<Rightarrow> Inl e
                     | Inr s1 \<Rightarrow> Inr (s1\<lparr>max_height := random_height\<rparr>))
               else Inr (s\<lparr>rnd := r'\<rparr>)) of
           Inl e \<Rightarrow> Inl e
         | Inr s2 \<Rightarrow> link_in room s2 k preNode 1))"

definition Insert ::
  "(int \<Rightarrow> nat) \<Rightarrow> (int \<Rightarrow> 'r \<Rightarrow> int \<times> 'r) \<Rightarrow> ('c, 'r) SkipList \<Rightarrow> int
     \<Rightarrow> (error + ('c, 'r) SkipList) option" where
  "Insert room U s k =
     (case lookup s k of
        None \<Rightarrow> None
      | Some (Inl e) \<Rightarrow> Some (Inl e)
      | Some (Inr (p, preNode)) \<Rightarrow>
          (case key_is (nodes s) p k of
             Inl e \<Rightarrow> Some (Inl e)
           | Inr True \<Rightarrow> Some (Inr s)
           | Inr False \<Rightarrow> Some (Insert_new room U s k preNode)))"

text \<open>
  \<open>preNode\<close> is not initialised: what it holds when \<open>Insert\<close> begins is whatever the stack
  held. \<open>Insert\<close> above treats the reading of an element that was never written as a
  failure. \<open>Insert_on stack\<close> is the same function with the contents of that memory given:
  \<open>stack\<close> is what \<open>preNode\<close> holds at the start, an element \<open>Some a\<close> reading as the
  pointer \<open>a\<close>. \<open>Insert\<close> is \<open>Insert_on\<close> where no element can be read.
\<close>

definition lookup_on ::
  "addr option list \<Rightarrow> ('c, 'r) SkipList \<Rightarrow> int \<Rightarrow> (error + link \<times> addr option list) option" where
  "lookup_on stack s k =
     (case descend (nodes s) k (max_height s) (head s) stack of
        None \<Rightarrow> None
      | Some (Inl e) \<Rightarrow> Some (Inl e)
      | Some (Inr (start, preNode)) \<Rightarrow>
          (case ptr_Next (nodes s) (Some start) 0 of
             Inl e \<Rightarrow> Some (Inl e)
           | Inr p \<Rightarrow> Some (Inr (p, preNode))))"

definition Insert_on ::
  "addr option list \<Rightarrow> (int \<Rightarrow> nat) \<Rightarrow> (int \<Rightarrow> 'r \<Rightarrow> int \<times> 'r) \<Rightarrow> ('c, 'r) SkipList \<Rightarrow> int
     \<Rightarrow> (error + ('c, 'r) SkipList) option" where
  "Insert_on stack room U s k =
     (case lookup_on stack s k of
        None \<Rightarrow> None
      | Some (Inl e) \<Rightarrow> Some (Inl e)
      | Some (Inr (p, preNode)) \<Rightarrow>
          (case key_is (nodes s) p k of
             Inl e \<Rightarrow> Some (Inl e)
           | Inr True \<Rightarrow> Some (Inr s)
           | Inr False \<Rightarrow> Some (Insert_new room U s k preNode)))"

subsection \<open>Remove\<close>

text \<open>
  \<open>for (i = 1; i <= max_height_; i++) preNode[i]->SetNext(i, start->Next(i))\<close>, where
  \<open>start\<close> is now the pointer read at level 0 and may be null.
\<close>

function unlink ::
  "('c, 'r) SkipList \<Rightarrow> addr option list \<Rightarrow> link \<Rightarrow> int \<Rightarrow> error + ('c, 'r) SkipList" where
  "unlink s preNode start i =
     (if i \<le> max_height s
      then (case read_local preNode i of
              Inl e \<Rightarrow> Inl e
            | Inr p \<Rightarrow>
                (case ptr_Next (nodes s) start i of
                   Inl e \<Rightarrow> Inl e
                 | Inr nx \<Rightarrow>
                     (case ptr_SetNext (nodes s) (Some p) i nx of
                        Inl e \<Rightarrow> Inl e
                      | Inr h' \<Rightarrow> unlink (s\<lparr>nodes := h'\<rparr>) preNode start (i + 1))))
      else Inr s)"
  by pat_completeness auto
termination
  by (relation "measure (\<lambda>(s, preNode, start, i). nat (max_height s + 1 - i))") auto

declare unlink.simps [simp del]

text \<open>
  \<open>Remove\<close> returns \<open>false\<close> when the test of line 230 succeeds; otherwise it runs the
  loop and reaches the closing brace with no \<open>return\<close>.
\<close>

definition Remove :: "('c, 'r) SkipList \<Rightarrow> int \<Rightarrow> (error + bool \<times> ('c, 'r) SkipList) option" where
  "Remove s k =
     (case lookup s k of
        None \<Rightarrow> None
      | Some (Inl e) \<Rightarrow> Some (Inl e)
      | Some (Inr (p, preNode)) \<Rightarrow>
          (case key_is (nodes s) p k of
             Inl e \<Rightarrow> Some (Inl e)
           | Inr True \<Rightarrow> Some (Inr (False, s))
           | Inr False \<Rightarrow>
               (case unlink s preNode p 1 of
                  Inl e \<Rightarrow> Some (Inl e)
                | Inr s' \<Rightarrow> Some (Inl NoReturn))))"

section \<open>The iterator\<close>

text \<open>
  \<open>class Iterator\<close> has \<open>node_\<close> and \<open>prevNode_\<close>; its \<open>list_\<close> is the list the functions
  below take as an argument.
\<close>

record Iterator =
  node :: link
  prevNode :: link

definition Iterator_ctor :: "('c, 'r) SkipList \<Rightarrow> Iterator" where
  "Iterator_ctor s = \<lparr>node = Some (head s), prevNode = None\<rparr>"

definition Valid :: "Iterator \<Rightarrow> bool" where
  "Valid it = (node it \<noteq> None)"

definition Iterator_key :: "('c, 'r) SkipList \<Rightarrow> Iterator \<Rightarrow> error + int" where
  "Iterator_key s it = ptr_key (nodes s) (node it)"

definition Iterator_Next :: "('c, 'r) SkipList \<Rightarrow> Iterator \<Rightarrow> error + Iterator" where
  "Iterator_Next s it =
     (case ptr_Next (nodes s) (node it) 1 of
        Inl e \<Rightarrow> Inl e
      | Inr p \<Rightarrow> Inr \<lparr>node = p, prevNode = node it\<rparr>)"

definition Prev :: "Iterator \<Rightarrow> Iterator" where
  "Prev it = it\<lparr>node := prevNode it\<rparr>"

definition SeekToFirst :: "('c, 'r) SkipList \<Rightarrow> Iterator \<Rightarrow> Iterator" where
  "SeekToFirst s it = it\<lparr>prevNode := None, node := Some (head s)\<rparr>"

partial_function (option) Seek :: "Node list \<Rightarrow> int \<Rightarrow> Iterator \<Rightarrow> (error + Iterator) option" where
  "Seek h target it =
     (case node it of
        None \<Rightarrow> Some (Inr it)
      | Some a \<Rightarrow>
          (case ptr_key h (node it) of
             Inl e \<Rightarrow> Some (Inl e)
           | Inr k' \<Rightarrow>
               if k' < target
               then (case ptr_Next h (node it) 1 of
                       Inl e \<Rightarrow> Some (Inl e)
                     | Inr p \<Rightarrow> Seek h target \<lparr>node = p, prevNode = node it\<rparr>)
               else Some (Inr it)))"

declare Seek.simps [code]

partial_function (option) SeekToLast :: "Node list \<Rightarrow> Iterator \<Rightarrow> (error + Iterator) option" where
  "SeekToLast h it =
     (case ptr_Next h (node it) 1 of
        Inl e \<Rightarrow> Some (Inl e)
      | Inr None \<Rightarrow> Some (Inr it)
      | Inr (Some nx) \<Rightarrow> SeekToLast h \<lparr>node = Some nx, prevNode = node it\<rparr>)"

declare SeekToLast.simps [code]

section \<open>Sequences of calls\<close>

datatype call = CallInsert int | CallRemove int | CallContains int

datatype reply = Returned | ReturnedBool bool

fun run ::
  "(int \<Rightarrow> nat) \<Rightarrow> (int \<Rightarrow> 'r \<Rightarrow> int \<times> 'r) \<Rightarrow> ('c, 'r) SkipList \<Rightarrow> call list
     \<Rightarrow> (error + reply list \<times> ('c, 'r) SkipList) option" where
  "run room U s [] = Some (Inr ([], s))"
| "run room U s (CallInsert k # cs) =
     (case Insert room U s k of
        None \<Rightarrow> None
      | Some (Inl e) \<Rightarrow> Some (Inl e)
      | Some (Inr s') \<Rightarrow>
          (case run room U s' cs of
             None \<Rightarrow> None
           | Some (Inl e) \<Rightarrow> Some (Inl e)
           | Some (Inr (rs, s'')) \<Rightarrow> Some (Inr (Returned # rs, s''))))"
| "run room U s (CallRemove k # cs) =
     (case Remove s k of
        None \<Rightarrow> None
      | Some (Inl e) \<Rightarrow> Some (Inl e)
      | Some (Inr (b, s')) \<Rightarrow>
          (case run room U s' cs of
             None \<Rightarrow> None
           | Some (Inl e) \<Rightarrow> Some (Inl e)
           | Some (Inr (rs, s'')) \<Rightarrow> Some (Inr (ReturnedBool b # rs, s''))))"
| "run room U s (CallContains k # cs) =
     (case Contains s k of
        None \<Rightarrow> None
      | Some (Inl e) \<Rightarrow> Some (Inl e)
      | Some (Inr b) \<Rightarrow>
          (case run room U s cs of
             None \<Rightarrow> None
           | Some (Inl e) \<Rightarrow> Some (Inl e)
           | Some (Inr (rs, s'')) \<Rightarrow> Some (Inr (ReturnedBool b # rs, s''))))"

text \<open>A list is constructed, then the calls are made on it.\<close>

definition run_new ::
  "(int \<Rightarrow> nat) \<Rightarrow> (int \<Rightarrow> 'r \<Rightarrow> int \<times> 'r) \<Rightarrow> (int \<Rightarrow> 'r) \<Rightarrow> 'c \<Rightarrow> call list
     \<Rightarrow> (error + reply list \<times> ('c, 'r) SkipList) option" where
  "run_new room U Rnd cmp cs =
     (case SkipList_ctor room Rnd cmp of
        Inl e \<Rightarrow> Some (Inl e)
      | Inr s \<Rightarrow> run room U s cs)"

section \<open>Notions the statements use\<close>

text \<open>
  The specification's account of the height: start at 1 and count one more for each draw
  that equals 0, up to the cap. \<open>zero_run U n r\<close> is the number of draws equal to 0 that
  the generator makes from state \<open>r\<close> before its first other draw, among at most \<open>n\<close>.
\<close>

fun zero_run :: "(int \<Rightarrow> 'r \<Rightarrow> int \<times> 'r) \<Rightarrow> nat \<Rightarrow> 'r \<Rightarrow> nat" where
  "zero_run U 0 r = 0"
| "zero_run U (Suc n) r =
     (case U 4 r of (x, r') \<Rightarrow> if x = 0 then Suc (zero_run U n r') else 0)"

text \<open>
  The search of \<open>Insert\<close> and \<open>Remove\<close> finds \<open>k\<close>: it ends, without failure, on a node
  whose key is \<open>k\<close> (the test of lines 190 and 230 succeeds).
\<close>

definition finds :: "('c, 'r) SkipList \<Rightarrow> int \<Rightarrow> bool" where
  "finds s k =
     (case lookup s k of
        None \<Rightarrow> False
      | Some (Inl e) \<Rightarrow> False
      | Some (Inr (p, preNode)) \<Rightarrow> key_is (nodes s) p k = Inr True)"

text \<open>
  No node has a link at index 0: its vector is empty or begins with a null pointer.
\<close>

definition bottom_null :: "Node list \<Rightarrow> bool" where
  "bottom_null h = list_all (\<lambda>nd. case nextv nd of [] \<Rightarrow> True | l # ls \<Rightarrow> l = None) h"

definition level0_unused :: "('c, 'r) SkipList \<Rightarrow> bool" where
  "level0_unused s = (0 \<le> max_height s \<and> bottom_null (nodes s))"

text \<open>
  The keys met from the head along the links of one level, the head's own key left out.
  The walk stops at a null pointer, at a failure, and after as many nodes as there are
  objects.
\<close>

fun chain :: "nat \<Rightarrow> Node list \<Rightarrow> int \<Rightarrow> link \<Rightarrow> int list" where
  "chain 0 h lvl p = []"
| "chain (Suc n) h lvl p =
     (case deref h p of
        Inl e \<Rightarrow> []
      | Inr nd \<Rightarrow> key nd # (case Next nd lvl of Inl e \<Rightarrow> [] | Inr q \<Rightarrow> chain n h lvl q))"

definition level_keys :: "('c, 'r) SkipList \<Rightarrow> int \<Rightarrow> int list" where
  "level_keys s lvl =
     (case ptr_Next (nodes s) (Some (head s)) lvl of
        Inl e \<Rightarrow> []
      | Inr p \<Rightarrow> chain (length (nodes s)) (nodes s) lvl p)"

subsection \<open>Concrete inputs\<close>

text \<open>
  \<open>one_more\<close> is a vector with one element more than the height asked for, so that the
  index \<open>height\<close> itself is in range. \<open>draw_1\<close> is a generator whose every draw is 1.
\<close>

definition one_more :: "int \<Rightarrow> nat" where
  "one_more height = nat height + 1"

definition draw_1 :: "int \<Rightarrow> unit \<Rightarrow> int \<times> unit" where
  "draw_1 n r = (1, r)"

text \<open>
  A generator whose state is a number: \<open>low_bits\<close> draws the remainder and keeps the
  quotient.
\<close>

definition low_bits :: "int \<Rightarrow> int \<Rightarrow> int \<times> int" where
  "low_bits n r = (r mod n, r div n)"

text \<open>
  \<open>two_high\<close> starts that generator at 4, whatever the seed: its first draw is 0 and its
  second is 1, so the first height drawn is 2.
\<close>

definition two_high :: "int \<Rightarrow> int" where
  "two_high seed = 4"

text \<open>
  \<open>empty_list\<close> is the empty list with a head of 12 links, what the constructor builds
  from \<open>resized\<close> vectors; \<open>roomy_list\<close> is the one it builds from \<open>one_more\<close>, and
  \<open>roomy_4\<close> is that one with the generator of \<open>two_high\<close>.
  \<open>list_of_5\<close> holds the key 5 the way the specification lays a list out: one node of
  height 1, linked from the head at level 0. \<open>list_of_1_3\<close> holds the keys 1 and 3 in
  that way, chained at level 0, with one element of room in each vector. In \<open>tall_9\<close> a node with key 9 is linked from
  the head at the indices 0, 1 and 2, and \<open>max_height_\<close> is 2.
\<close>

definition empty_list :: "(unit, unit) SkipList" where
  "empty_list =
     \<lparr>compare = (), head = 0, max_height = 1, rnd = (),
      nodes = [\<lparr>key = 0, nextv = replicate 12 None\<rparr>]\<rparr>"

definition roomy_list :: "(unit, unit) SkipList" where
  "roomy_list =
     \<lparr>compare = (), head = 0, max_height = 1, rnd = (),
      nodes = [\<lparr>key = 0, nextv = replicate 13 None\<rparr>]\<rparr>"

definition roomy_4 :: "(unit, int) SkipList" where
  "roomy_4 =
     \<lparr>compare = (), head = 0, max_height = 1, rnd = 4,
      nodes = [\<lparr>key = 0, nextv = replicate 13 None\<rparr>]\<rparr>"

definition list_of_5 :: "(unit, unit) SkipList" where
  "list_of_5 =
     \<lparr>compare = (), head = 0, max_height = 1, rnd = (),
      nodes = [\<lparr>key = 0, nextv = Some 1 # replicate 11 None\<rparr>,
               \<lparr>key = 5, nextv = [None]\<rparr>]\<rparr>"

definition list_of_1_3 :: "(unit, unit) SkipList" where
  "list_of_1_3 =
     \<lparr>compare = (), head = 0, max_height = 1, rnd = (),
      nodes = [\<lparr>key = 0, nextv = Some 1 # replicate 12 None\<rparr>,
               \<lparr>key = 1, nextv = [Some 2, None]\<rparr>,
               \<lparr>key = 3, nextv = [None, None]\<rparr>]\<rparr>"

definition tall_9 :: "(unit, unit) SkipList" where
  "tall_9 =
     \<lparr>compare = (), head = 0, max_height = 2, rnd = (),
      nodes = [\<lparr>key = 0, nextv = [Some 1, Some 1, Some 1] @ replicate 9 None\<rparr>,
               \<lparr>key = 9, nextv = [None, None, None]\<rparr>]\<rparr>"

section \<open>The height of a new node: results\<close>

lemma zero_run_le: "zero_run U n r \<le> n"
  by (induction n arbitrary: r) (auto split: prod.splits)

lemma RandomHeight_loop_zero_run:
  "level \<le> kMaxHeight \<Longrightarrow>
   fst (RandomHeight_loop U level r) = level + int (zero_run U (nat (kMaxHeight - level)) r)"
proof (induction U level r rule: RandomHeight_loop.induct)
  case (1 U level r)
  obtain x r' where u: "U 4 r = (x, r')"
    by (cases "U 4 r")
  show ?case
  proof (cases "x = 0 \<and> level < kMaxHeight")
    case True
    then have n: "nat (kMaxHeight - level) = Suc (nat (kMaxHeight - (level + 1)))"
      by linarith
    from True have "fst (RandomHeight_loop U (level + 1) r') =
        level + 1 + int (zero_run U (nat (kMaxHeight - (level + 1))) r')"
      using 1(1) [OF u [symmetric]] by simp
    with True u show ?thesis
      by (subst RandomHeight_loop.simps) (simp add: n)
  next
    case False
    show ?thesis
    proof (cases "x = 0")
      case True
      with False 1(2) have "level = kMaxHeight" by simp
      with u show ?thesis
        by (subst RandomHeight_loop.simps) simp
    next
      case nz: False
      then have "zero_run U (nat (kMaxHeight - level)) r = 0"
        using u by (cases "nat (kMaxHeight - level)") auto
      with nz u show ?thesis
        by (subst RandomHeight_loop.simps) simp
    qed
  qed
qed

text \<open>
  Claim C9. Whatever the generator returns and whatever its state, \<open>RandomHeight\<close> returns
  a height between 1 and \<open>kMaxHeight\<close>, which is 12: the height is 1 plus the number of
  draws equal to 0 made before the first other draw, and at most eleven draws count.
\<close>

theorem RandomHeight_range:
  "1 \<le> fst (RandomHeight U r) \<and> fst (RandomHeight U r) \<le> kMaxHeight \<and> kMaxHeight = 12 \<and>
   fst (RandomHeight U r) = 1 + int (zero_run U 11 r)"
proof -
  have "fst (RandomHeight U r) = 1 + int (zero_run U (nat (kMaxHeight - 1)) r)"
    unfolding RandomHeight_def by (rule RandomHeight_loop_zero_run) (simp add: kMaxHeight_def)
  then have e: "fst (RandomHeight U r) = 1 + int (zero_run U 11 r)"
    by (simp add: kMaxHeight_def)
  moreover have "zero_run U 11 r \<le> 11"
    by (rule zero_run_le)
  ultimately show ?thesis
    by (simp add: kMaxHeight_def)
qed

section \<open>What the operations leave alone\<close>

lemma init_next_replicate:
  "init_next v i height = Inr v' \<Longrightarrow> v = replicate n None \<Longrightarrow> v' = replicate n None"
proof (induction v i height arbitrary: v' rule: init_next.induct)
  case (1 v i height)
  show ?case
  proof (cases "i < height")
    case True
    with "1.prems"(1) obtain v1 where s: "vec_set v i None = Inr v1" and r: "init_next v1 (i + 1) height = Inr v'"
      by (subst (asm) init_next.simps) (auto split: sum.splits)
    from s "1.prems"(2) have "v1 = replicate n None"
      by (auto simp: vec_set_def list_eq_iff_nth_eq nth_list_update split: if_splits)
    with "1.IH" [OF True s r] show ?thesis .
  next
    case False
    with "1.prems" show ?thesis
      by (subst (asm) init_next.simps) simp
  qed
qed

lemma Node_ctor_nextv: "Node_ctor room k height = Inr nd \<Longrightarrow> nextv nd = replicate (room height) None \<and> key nd = k"
  by (auto simp: Node_ctor_def split: sum.splits dest: init_next_replicate)

lemma bottom_null_NewNode:
  "NewNode room h k height = Inr (a, h') \<Longrightarrow> bottom_null h \<Longrightarrow> bottom_null h'"
  by (cases "room height") (auto simp: NewNode_def bottom_null_def split: sum.splits dest!: Node_ctor_nextv)

lemma bottom_null_SetNext:
  assumes "ptr_SetNext h p n x = Inr h'" "1 \<le> n" "bottom_null h"
  shows "bottom_null h'"
proof -
  from assms(1) obtain a where p: "p = Some a" and a: "a < length h"
    and n: "nat n < length (nextv (h ! a))"
    and h': "h' = h[a := (h ! a)\<lparr>nextv := (nextv (h ! a))[nat n := x]\<rparr>]"
    by (auto simp: ptr_SetNext_def deref_def SetNext_def vec_set_def split: option.splits if_splits sum.splits)
  from assms(2) obtain m where m: "nat n = Suc m"
    by (cases "nat n") auto
  from assms(3) a have "case nextv (h ! a) of [] \<Rightarrow> True | l # ls \<Rightarrow> l = None"
    by (simp add: bottom_null_def list_all_length)
  then have "case (nextv (h ! a))[nat n := x] of [] \<Rightarrow> True | l # ls \<Rightarrow> l = None"
    by (cases "nextv (h ! a)") (simp_all add: m)
  with assms(3) a show ?thesis
    unfolding h' bottom_null_def list_all_length by (auto simp: nth_list_update)
qed

lemma bottom_null_link_in:
  "link_in room s k preNode i = Inr s' \<Longrightarrow> 1 \<le> i \<Longrightarrow> bottom_null (nodes s) \<Longrightarrow> bottom_null (nodes s')"
proof (induction room s k preNode i rule: link_in.induct)
  case (1 room s k preNode i)
  show ?case
  proof (cases "i \<le> max_height s")
    case True
    with "1.prems"(1) obtain a h1 p nx h2 h3 where n: "NewNode room (nodes s) k i = Inr (a, h1)"
      and l: "read_local preNode i = Inr p"
      and x: "ptr_Next h1 (Some p) i = Inr nx"
      and u: "ptr_SetNext h1 (Some a) i nx = Inr h2"
      and w: "ptr_SetNext h2 (Some p) i (Some a) = Inr h3"
      and r: "link_in room (s\<lparr>nodes := h3\<rparr>) k preNode (i + 1) = Inr s'"
      by (subst (asm) link_in.simps) (auto split: sum.splits)
    from n "1.prems"(3) have "bottom_null h1" by (rule bottom_null_NewNode)
    with u "1.prems"(2) have "bottom_null h2" by (blast intro: bottom_null_SetNext)
    with w "1.prems"(2) have "bottom_null h3" by (blast intro: bottom_null_SetNext)
    with "1.IH" [OF True n refl l x u w r] "1.prems"(2) show ?thesis by simp
  next
    case False
    with "1.prems" show ?thesis by (subst (asm) link_in.simps) simp
  qed
qed

lemma link_in_max_height:
  "link_in room s k preNode i = Inr s' \<Longrightarrow> max_height s' = max_height s"
proof (induction room s k preNode i rule: link_in.induct)
  case (1 room s k preNode i)
  show ?case
  proof (cases "i \<le> max_height s")
    case True
    with "1.prems" obtain a h1 p nx h2 h3 where n: "NewNode room (nodes s) k i = Inr (a, h1)"
      and l: "read_local preNode i = Inr p"
      and x: "ptr_Next h1 (Some p) i = Inr nx"
      and u: "ptr_SetNext h1 (Some a) i nx = Inr h2"
      and w: "ptr_SetNext h2 (Some p) i (Some a) = Inr h3"
      and r: "link_in room (s\<lparr>nodes := h3\<rparr>) k preNode (i + 1) = Inr s'"
      by (subst (asm) link_in.simps) (auto split: sum.splits)
    from "1.IH" [OF True n refl l x u w r] show ?thesis by simp
  next
    case False
    with "1.prems" show ?thesis by (subst (asm) link_in.simps) simp
  qed
qed

text \<open>
  The elements of \<open>preNode\<close> above \<open>max_height_\<close> are not written by the search, and the
  linking loop reads every element from 1 to the new \<open>max_height_\<close>. So a call of
  \<open>Insert\<close> that draws a height above \<open>max_height_\<close> does not run to its end, and one that
  does leaves \<open>max_height_\<close> as it was.
\<close>

lemma RandomHeight_ge_1: "1 \<le> fst (RandomHeight U r)"
proof -
  have "fst (RandomHeight U r) = 1 + int (zero_run U (nat (kMaxHeight - 1)) r)"
    unfolding RandomHeight_def by (rule RandomHeight_loop_zero_run) (simp add: kMaxHeight_def)
  then show ?thesis
    by simp
qed

lemma descend_above:
  "descend h k height start preNode = Some (Inr (st, preNode')) \<Longrightarrow> height < j \<Longrightarrow>
   vec_get preNode' j = vec_get preNode j"
proof (induction h k height start preNode rule: descend.induct)
  case (1 h k height start preNode)
  show ?case
  proof (cases "1 \<le> height")
    case True
    with "1.prems"(1) obtain start' preNode1 where a: "advance h k height start = Some (Inr start')"
      and v: "vec_set preNode height (Some start') = Inr preNode1"
      and r: "descend h k (height - 1) start' preNode1 = Some (Inr (st, preNode'))"
      by (subst (asm) descend.simps) (auto split: option.splits sum.splits)
    from "1.prems"(2) have "vec_get preNode' j = vec_get preNode1 j"
      by (intro "1.IH" [OF True a refl v r]) simp
    moreover from v True "1.prems"(2) have "vec_get preNode1 j = vec_get preNode j"
      by (auto simp: vec_set_def vec_get_def split: if_splits)
    ultimately show ?thesis
      by simp
  next
    case False
    with "1.prems"(1) show ?thesis
      by (subst (asm) descend.simps) simp
  qed
qed

lemma link_in_reads:
  "link_in room s k preNode i = Inr s' \<Longrightarrow> i \<le> j \<Longrightarrow> j \<le> max_height s \<Longrightarrow>
   \<exists>p. read_local preNode j = Inr p"
proof (induction room s k preNode i rule: link_in.induct)
  case (1 room s k preNode i)
  from "1.prems"(2,3) have True: "i \<le> max_height s"
    by simp
  with "1.prems"(1) obtain a h1 p nx h2 h3 where n: "NewNode room (nodes s) k i = Inr (a, h1)"
    and l: "read_local preNode i = Inr p"
    and x: "ptr_Next h1 (Some p) i = Inr nx"
    and u: "ptr_SetNext h1 (Some a) i nx = Inr h2"
    and w: "ptr_SetNext h2 (Some p) i (Some a) = Inr h3"
    and r: "link_in room (s\<lparr>nodes := h3\<rparr>) k preNode (i + 1) = Inr s'"
    by (subst (asm) link_in.simps) (auto split: sum.splits)
  show ?case
  proof (cases "j = i")
    case True
    with l show ?thesis by blast
  next
    case False
    with "1.prems"(2,3) show ?thesis
      by (intro "1.IH" [OF True n refl l x u w r]) simp_all
  qed
qed

lemma unwritten_above:
  assumes "descend h k height start (replicate n None) = Some (Inr (st, preNode))" "height < j"
  shows "\<exists>e. read_local preNode j = Inl e"
proof -
  from assms have "vec_get preNode j = vec_get (replicate n None) j"
    by (rule descend_above)
  then show ?thesis
    by (auto simp: read_local_def vec_get_def)
qed

lemma Insert_completes:
  assumes "Insert room U s k = Some (Inr s')"
  obtains (found) "finds s k" "s' = s"
  | (linked) p preNode rh r' where "lookup s k = Some (Inr (p, preNode))" "\<not> finds s k"
      "RandomHeight U (rnd s) = (rh, r')" "1 \<le> rh" "rh \<le> max_height s"
      "link_in room (s\<lparr>rnd := r'\<rparr>) k preNode 1 = Inr s'"
proof -
  from assms obtain p preNode where l: "lookup s k = Some (Inr (p, preNode))"
    and c: "key_is (nodes s) p k = Inr True \<and> s' = s \<or>
      key_is (nodes s) p k = Inr False \<and> Insert_new room U s k preNode = Inr s'"
    by (auto simp: Insert_def split: option.splits sum.splits prod.splits bool.splits)
  from c show ?thesis
  proof
    assume "key_is (nodes s) p k = Inr True \<and> s' = s"
    with l show ?thesis
      by (intro found) (simp_all add: finds_def)
  next
    assume n: "key_is (nodes s) p k = Inr False \<and> Insert_new room U s k preNode = Inr s'"
    with l have nf: "\<not> finds s k"
      by (simp add: finds_def)
    obtain rh r' where d: "RandomHeight U (rnd s) = (rh, r')"
      by (cases "RandomHeight U (rnd s)")
    from RandomHeight_ge_1 [of U "rnd s"] d have rh1: "1 \<le> rh"
      by simp
    from l obtain st where ds: "descend (nodes s) k (max_height s) (head s) (replicate (nat kMaxHeight) None) =
        Some (Inr (st, preNode))"
      by (auto simp: lookup_def split: option.splits sum.splits prod.splits)
    show ?thesis
    proof (cases "rh > max_height s")
      case True
      with n d obtain s1 where "grow room (s\<lparr>rnd := r'\<rparr>) k (max_height s + 1) rh = Inr s1"
        and li: "link_in room (s1\<lparr>max_height := rh\<rparr>) k preNode 1 = Inr s'"
        by (auto simp: Insert_new_def split: sum.splits)
      define j where "j = max 1 (max_height s + 1)"
      from True rh1 have "1 \<le> j" "j \<le> max_height (s1\<lparr>max_height := rh\<rparr>)" "max_height s < j"
        by (simp_all add: j_def)
      from link_in_reads [OF li this(1,2)] unwritten_above [OF ds this(3)] show ?thesis
        by auto
    next
      case False
      with n d have "link_in room (s\<lparr>rnd := r'\<rparr>) k preNode 1 = Inr s'"
        by (auto simp: Insert_new_def split: sum.splits)
      with l nf d False rh1 show ?thesis
        by (intro linked [of p preNode rh r']) auto
    qed
  qed
qed


text \<open>Every run of the linking loop appends a node with the key.\<close>

lemma ptr_SetNext_keys: "ptr_SetNext h p n x = Inr h' \<Longrightarrow> map key h' = map key h"
  by (auto simp: ptr_SetNext_def deref_def SetNext_def vec_set_def nth_list_update
      split: option.splits if_splits sum.splits intro!: nth_equalityI)

lemma NewNode_keys: "NewNode room h k height = Inr (a, h') \<Longrightarrow> map key h' = map key h @ [k]"
  by (auto simp: NewNode_def split: sum.splits dest: Node_ctor_nextv)

lemma link_in_keys:
  "link_in room s k preNode i = Inr s' \<Longrightarrow>
   \<exists>n. map key (nodes s') = map key (nodes s) @ replicate n k \<and> (if i \<le> max_height s then 1 \<le> n else n = 0)"
proof (induction room s k preNode i rule: link_in.induct)
  case (1 room s k preNode i)
  show ?case
  proof (cases "i \<le> max_height s")
    case True
    with "1.prems" obtain a h1 p nx h2 h3 where n: "NewNode room (nodes s) k i = Inr (a, h1)"
      and l: "read_local preNode i = Inr p"
      and x: "ptr_Next h1 (Some p) i = Inr nx"
      and u: "ptr_SetNext h1 (Some a) i nx = Inr h2"
      and w: "ptr_SetNext h2 (Some p) i (Some a) = Inr h3"
      and r: "link_in room (s\<lparr>nodes := h3\<rparr>) k preNode (i + 1) = Inr s'"
      by (subst (asm) link_in.simps) (auto split: sum.splits)
    from "1.IH" [OF True n refl l x u w r] obtain m where
      "map key (nodes s') = map key h3 @ replicate m k"
      by auto
    moreover from n u w have "map key h3 = map key (nodes s) @ [k]"
      by (simp add: ptr_SetNext_keys NewNode_keys)
    ultimately have "map key (nodes s') = map key (nodes s) @ replicate (Suc m) k"
      by (simp add: replicate_app_Cons_same)
    with True show ?thesis
      by (intro exI [of _ "Suc m"]) simp
  next
    case False
    with "1.prems" show ?thesis by (subst (asm) link_in.simps) auto
  qed
qed

lemma level0_unused_Insert:
  assumes "Insert room U s k = Some (Inr s')" "level0_unused s"
  shows "level0_unused s'"
  using assms(1)
proof (cases rule: Insert_completes)
  case found
  with assms(2) show ?thesis by simp
next
  case (linked p preNode rh r')
  from bottom_null_link_in [OF linked(6)] link_in_max_height [OF linked(6)] assms(2)
  show ?thesis by (simp add: level0_unused_def)
qed

lemma Remove_result: "Remove s k = Some (Inr (b, s')) \<Longrightarrow> b = False \<and> s' = s"
  by (auto simp: Remove_def split: option.splits sum.splits prod.splits bool.splits)

lemma Contains_level0_unused:
  assumes "Contains s k = Some (Inr b)" "bottom_null (nodes s)"
  shows "b = False"
proof -
  from assms(1) obtain start p where p: "ptr_Next (nodes s) (Some start) 0 = Inr p"
    and b: "key_is (nodes s) p k = Inr b"
    by (auto simp: Contains_def split: option.splits sum.splits)
  from p obtain x xs where a: "start < length (nodes s)" and v: "nextv (nodes s ! start) = x # xs" and x: "p = x"
    by (cases "nextv (nodes s ! start)") (auto simp: ptr_Next_def deref_def Next_def vec_get_def split: if_splits)
  from assms(2) a v have "x = None"
    by (auto simp: bottom_null_def list_all_length)
  with b x show ?thesis by (simp add: key_is_def)
qed

lemma Remove_only_when_found: "Remove s k = Some (Inr (b, s')) \<Longrightarrow> finds s k"
  by (auto simp: Remove_def finds_def split: option.splits sum.splits prod.splits bool.splits)

lemma finds_needs_level0:
  assumes "bottom_null (nodes s)"
  shows "\<not> finds s k"
proof
  assume "finds s k"
  then obtain start preNode p where p: "ptr_Next (nodes s) (Some start) 0 = Inr p"
    and t: "key_is (nodes s) p k = Inr True"
    by (auto simp: finds_def lookup_def split: option.splits sum.splits prod.splits)
  from p obtain x xs where a: "start < length (nodes s)"
    and v: "nextv (nodes s ! start) = x # xs" and x: "p = x"
    by (cases "nextv (nodes s ! start)")
      (auto simp: ptr_Next_def deref_def Next_def vec_get_def split: if_splits)
  from assms a v have "x = None"
    by (auto simp: bottom_null_def list_all_length)
  with t x show False
    by (simp add: key_is_def)
qed

lemma run_level0_unused:
  "run room U s cs = Some (Inr (rs, s')) \<Longrightarrow> level0_unused s \<Longrightarrow>
   level0_unused s' \<and> ReturnedBool True \<notin> set rs"
proof (induction cs arbitrary: s rs)
  case Nil
  then show ?case by simp
next
  case (Cons c cs)
  show ?case
  proof (cases c)
    case (CallInsert k)
    with Cons.prems(1) obtain s1 rs1 where i: "Insert room U s k = Some (Inr s1)"
      and r: "run room U s1 cs = Some (Inr (rs1, s'))" and rs: "rs = Returned # rs1"
      by (auto split: option.splits sum.splits)
    from level0_unused_Insert [OF i Cons.prems(2)] Cons.IH [OF r] rs show ?thesis by simp
  next
    case (CallRemove k)
    with Cons.prems(1) obtain b s1 rs1 where i: "Remove s k = Some (Inr (b, s1))"
      and r: "run room U s1 cs = Some (Inr (rs1, s'))" and rs: "rs = ReturnedBool b # rs1"
      by (auto split: option.splits sum.splits)
    from Remove_result [OF i] Cons.prems(2) Cons.IH [OF r] rs show ?thesis by simp
  next
    case (CallContains k)
    with Cons.prems(1) obtain b rs1 where i: "Contains s k = Some (Inr b)"
      and r: "run room U s cs = Some (Inr (rs1, s'))" and rs: "rs = ReturnedBool b # rs1"
      by (auto split: option.splits sum.splits)
    from Contains_level0_unused [OF i] Cons.prems(2) Cons.IH [OF r] rs show ?thesis
      by (simp add: level0_unused_def)
  qed
qed

lemma SkipList_ctor_level0_unused:
  "SkipList_ctor room Rnd cmp = Inr s \<Longrightarrow> level0_unused s"
  by (cases "room kMaxHeight")
    (auto simp: SkipList_ctor_def level0_unused_def bottom_null_def split: sum.splits dest!: Node_ctor_nextv)



section \<open>Remove\<close>

text \<open>
  Claim C1 (the code does not do what the claim says). \<open>Remove\<close> never returns \<open>true\<close>,
  whatever the list and the key. At the list that holds the key 5, the search finds 5
  and \<open>Remove(5)\<close> returns \<open>false\<close> with the node still there. The scenario of the
  specification (insert 5, 1, 9 and 3 into a new list, then remove 5) fails in the
  constructor as written, and in \<open>Remove(5)\<close>, through the null pointer read at level 0,
  with one element of room beyond the height.
\<close>

theorem Remove_never_returns_true:
  "Remove s k \<noteq> Some (Inr (True, s')) \<and>
   finds list_of_5 5 \<and>
   Remove list_of_5 5 = Some (Inr (False, list_of_5)) \<and>
   run_new as_written draw_1 (\<lambda>_. ()) ()
     [CallInsert 5, CallInsert 1, CallInsert 9, CallInsert 3, CallRemove 5] =
     Some (Inl OutOfRange) \<and>
   run_new one_more draw_1 (\<lambda>_. ()) ()
     [CallInsert 5, CallInsert 1, CallInsert 9, CallInsert 3, CallRemove 5] =
     Some (Inl NullDeref)"
proof -
  have "Remove s k \<noteq> Some (Inr (True, s'))"
    by (auto dest: Remove_result)
  moreover have "finds list_of_5 5"
    by code_simp
  moreover have "Remove list_of_5 5 = Some (Inr (False, list_of_5))"
    by code_simp
  moreover have "run_new as_written draw_1 (\<lambda>_. ()) ()
     [CallInsert 5, CallInsert 1, CallInsert 9, CallInsert 3, CallRemove 5] =
     Some (Inl OutOfRange)"
    by code_simp
  moreover have "run_new one_more draw_1 (\<lambda>_. ()) ()
     [CallInsert 5, CallInsert 1, CallInsert 9, CallInsert 3, CallRemove 5] =
     Some (Inl NullDeref)"
    by code_simp
  ultimately show ?thesis
    by simp
qed

text \<open>
  Claim C2 (the code does not do what the claim says). With vectors resized to the height
  the constructor builds \<open>empty_list\<close>, and there \<open>Remove(k)\<close> finds no key, goes on to its
  loop and reads \<open>start->Next(1)\<close> through the null pointer \<open>start\<close>, for every \<open>k\<close>; the
  claim has it return \<open>false\<close>. In \<open>tall_9\<close> the key 5 is absent, and \<open>Remove(5)\<close> runs its
  loop on the node that follows, the one with key 9: level 1 holds the key 9 before the
  loop and no key after it, and the call ends with no \<open>return\<close>.
\<close>

theorem Remove_of_absent_key:
  "SkipList_ctor resized (\<lambda>_. ()) () = Inr empty_list \<and>
   Remove empty_list k = Some (Inl NullDeref) \<and>
   \<not> finds tall_9 5 \<and>
   level_keys tall_9 1 = [9] \<and>
   lookup tall_9 5 =
     Some (Inr (Some 1, [None, Some 0, Some 0, None, None, None, None, None, None, None, None, None])) \<and>
   map_sum (\<lambda>e. e) (\<lambda>s. level_keys s 1)
     (unlink tall_9 [None, Some 0, Some 0, None, None, None, None, None, None, None, None, None]
        (Some 1) 1) = Inr [] \<and>
   Remove tall_9 5 = Some (Inl NoReturn)"
proof -
  have "SkipList_ctor resized (\<lambda>_. ()) () = Inr empty_list"
    by code_simp
  moreover have "lookup empty_list k = Some (Inr (None, (replicate 12 None)[1 := Some 0]))"
    by (simp add: lookup_def empty_list_def kMaxHeight_def descend.simps advance.simps
        ptr_Next_def deref_def Next_def vec_get_def vec_set_def)
  then have "Remove empty_list k = Some (Inl NullDeref)"
    by (simp add: Remove_def key_is_def unlink.simps read_local_def vec_get_def empty_list_def
        ptr_Next_def deref_def)
  moreover have "\<not> finds tall_9 5"
    by code_simp
  moreover have "level_keys tall_9 1 = [9]"
    by code_simp
  moreover have "lookup tall_9 5 =
     Some (Inr (Some 1, [None, Some 0, Some 0, None, None, None, None, None, None, None, None, None]))"
    by code_simp
  moreover have "map_sum (\<lambda>e. e) (\<lambda>s. level_keys s 1)
     (unlink tall_9 [None, Some 0, Some 0, None, None, None, None, None, None, None, None, None]
        (Some 1) 1) = Inr []"
    by code_simp
  moreover have "Remove tall_9 5 = Some (Inl NoReturn)"
    by code_simp
  ultimately show ?thesis
    by simp
qed

section \<open>Insert and Contains\<close>

text \<open>
  Claim C3 (the code does not do what the claim says). Whatever room the vectors have and
  whatever the generator draws: on a list that the constructor built, no call of a
  sequence that runs to its end returns \<open>true\<close>, and afterwards \<open>Contains\<close> does not return
  \<open>true\<close> and \<open>Remove\<close> does not return at all, for any key, the inserted ones included.
  \<open>Insert\<close> writes links at the indices from 1 on only, and \<open>Contains\<close> and \<open>Remove\<close> look
  for the key on the link at index 0.
\<close>

theorem no_call_returns_true:
  assumes "SkipList_ctor room Rnd cmp = Inr s0" and "run room U s0 cs = Some (Inr (rs, s))"
  shows "ReturnedBool True \<notin> set rs \<and> Contains s k \<noteq> Some (Inr True) \<and>
    Remove s k \<noteq> Some (Inr (b, s'))"
proof -
  from assms(1) have "level0_unused s0"
    by (rule SkipList_ctor_level0_unused)
  with assms(2) have "level0_unused s \<and> ReturnedBool True \<notin> set rs"
    by (rule run_level0_unused)
  then show ?thesis
    by (auto simp: level0_unused_def
        dest: Contains_level0_unused finds_needs_level0 Remove_only_when_found)
qed

text \<open>
  The hypotheses hold with one element of room beyond the height: \<open>Insert(5)\<close> then
  \<open>Contains(5)\<close> run to their end, and \<open>Contains(5)\<close> returns \<open>false\<close>.
\<close>

theorem no_call_returns_true_witness:
  "SkipList_ctor one_more (\<lambda>_. ()) () = Inr roomy_list \<and>
   run one_more draw_1 roomy_list [CallInsert 5, CallContains 5] =
     Some (Inr ([Returned, ReturnedBool False],
       roomy_list\<lparr>nodes := [\<lparr>key = 0, nextv = [None, Some 1] @ replicate 11 None\<rparr>,
                              \<lparr>key = 5, nextv = [None, None]\<rparr>]\<rparr>)) \<and>
   ReturnedBool True \<notin> set [Returned, ReturnedBool False] \<and>
   Contains (roomy_list\<lparr>nodes := [\<lparr>key = 0, nextv = [None, Some 1] @ replicate 11 None\<rparr>,
                              \<lparr>key = 5, nextv = [None, None]\<rparr>]\<rparr>) 5 \<noteq> Some (Inr True) \<and>
   Remove (roomy_list\<lparr>nodes := [\<lparr>key = 0, nextv = [None, Some 1] @ replicate 11 None\<rparr>,
                              \<lparr>key = 5, nextv = [None, None]\<rparr>]\<rparr>) 5 \<noteq>
     Some (Inr (True, roomy_list))"
proof -
  have c: "SkipList_ctor one_more (\<lambda>_. ()) () = Inr roomy_list"
    by code_simp
  have r: "run one_more draw_1 roomy_list [CallInsert 5, CallContains 5] =
     Some (Inr ([Returned, ReturnedBool False],
       roomy_list\<lparr>nodes := [\<lparr>key = 0, nextv = [None, Some 1] @ replicate 11 None\<rparr>,
                              \<lparr>key = 5, nextv = [None, None]\<rparr>]\<rparr>))"
    by code_simp
  from no_call_returns_true [OF c r, where k = 5 and b = True and s' = roomy_list] c r
  show ?thesis
    by simp
qed

text \<open>
  Claim C4, at \<open>Insert(5); Insert(5)\<close> on a new list (the code does not do what the claim
  says). As written the run fails in the constructor. With one element of room beyond the
  height it ends with two nodes of key 5 on the links of index 1 and none on those of
  index 0: the keys of level 1 are not strictly increasing, and they are no subsequence
  of the keys of level 0.
\<close>

theorem Insert_twice_duplicates:
  "run_new as_written draw_1 (\<lambda>_. ()) () [CallInsert 5, CallInsert 5] = Some (Inl OutOfRange) \<and>
   run_new one_more draw_1 (\<lambda>_. ()) () [CallInsert 5, CallInsert 5] =
     Some (Inr ([Returned, Returned],
       roomy_list\<lparr>nodes := [\<lparr>key = 0, nextv = [None, Some 2] @ replicate 11 None\<rparr>,
                              \<lparr>key = 5, nextv = [None, None]\<rparr>,
                              \<lparr>key = 5, nextv = [None, Some 1]\<rparr>]\<rparr>)) \<and>
   level_keys (roomy_list\<lparr>nodes := [\<lparr>key = 0, nextv = [None, Some 2] @ replicate 11 None\<rparr>,
                              \<lparr>key = 5, nextv = [None, None]\<rparr>,
                              \<lparr>key = 5, nextv = [None, Some 1]\<rparr>]\<rparr>) 1 = [5, 5] \<and>
   level_keys (roomy_list\<lparr>nodes := [\<lparr>key = 0, nextv = [None, Some 2] @ replicate 11 None\<rparr>,
                              \<lparr>key = 5, nextv = [None, None]\<rparr>,
                              \<lparr>key = 5, nextv = [None, Some 1]\<rparr>]\<rparr>) 0 = []"
  by code_simp

text \<open>
  The test for a key that is there already, and the return of line 191, work when the
  search finds the key: \<open>Insert\<close> returns with the list as it was.
\<close>

lemma Insert_when_found: "finds s k \<Longrightarrow> Insert room U s k = Some (Inr s)"
  by (auto simp: Insert_def finds_def split: option.splits sum.splits prod.splits)

text \<open>
  A key that \<open>Contains\<close> reports is one that the search of \<open>Insert\<close> finds, in a list whose
  head has no link above \<open>max_height_\<close> and whose \<open>max_height_\<close> is below \<open>kMaxHeight\<close>:
  \<open>Contains\<close> comes down from \<open>kMaxHeight\<close> and \<open>Insert\<close> from \<open>max_height_\<close>, and they meet.
\<close>

lemma advance_at_null:
  "ptr_Next h (Some start) height = Inr None \<Longrightarrow> advance h k height start = Some (Inr start)"
  by (subst advance.simps) simp

lemma scan_below_1: "height < 1 \<Longrightarrow> scan h k height start = Some (Inr start)"
  by (subst scan.simps) simp

lemma scan_skips_null_levels:
  assumes "\<forall>l. mh < l \<and> l \<le> height \<longrightarrow> ptr_Next h (Some start) l = Inr None"
  shows "mh \<le> height \<Longrightarrow> scan h k height start = scan h k mh start"
  using assms
proof (induction h k height start rule: scan.induct)
  case (1 h k height start)
  show ?case
  proof (cases "mh < height")
    case False
    with "1.prems" show ?thesis by simp
  next
    case True
    show ?thesis
    proof (cases "1 \<le> height")
      case h: True
      from True "1.prems"(2) have a: "advance h k height start = Some (Inr start)"
        by (intro advance_at_null) simp
      from True "1.prems" have "scan h k (height - 1) start = scan h k mh start"
        by (intro "1.IH" [OF h a refl]) auto
      with h a show ?thesis
        by (subst scan.simps) simp
    next
      case False
      with True show ?thesis
        by (simp add: scan_below_1)
    qed
  qed
qed

lemma descend_follows_scan:
  "scan h k height start = Some (Inr st) \<Longrightarrow> height < int (length preNode) \<Longrightarrow>
   \<exists>preNode'. descend h k height start preNode = Some (Inr (st, preNode'))"
proof (induction h k height start arbitrary: preNode rule: scan.induct)
  case (1 h k height start)
  show ?case
  proof (cases "1 \<le> height")
    case True
    with "1.prems"(1) obtain start' where a: "advance h k height start = Some (Inr start')"
      and r: "scan h k (height - 1) start' = Some (Inr st)"
      by (subst (asm) scan.simps) (auto split: option.splits sum.splits)
    from True "1.prems"(2) have v: "vec_set preNode height (Some start') = Inr (preNode[nat height := Some start'])"
      by (auto simp: vec_set_def)
    from "1.prems"(2) have "height - 1 < int (length (preNode[nat height := Some start']))"
      by simp
    from "1.IH" [OF True a refl r this] True a v show ?thesis
      by (subst descend.simps) simp
  next
    case False
    with "1.prems"(1) show ?thesis
      by (subst descend.simps, subst (asm) scan.simps) simp
  qed
qed

lemma Contains_true_finds:
  assumes "Contains s k = Some (Inr True)"
    and "max_height s < kMaxHeight"
    and "\<forall>l. max_height s < l \<and> l \<le> kMaxHeight \<longrightarrow> ptr_Next (nodes s) (Some (head s)) l = Inr None"
  shows "finds s k"
proof -
  from assms(1) obtain st p where sc: "scan (nodes s) k kMaxHeight (head s) = Some (Inr st)"
    and p: "ptr_Next (nodes s) (Some st) 0 = Inr p" and t: "key_is (nodes s) p k = Inr True"
    by (auto simp: Contains_def split: option.splits sum.splits)
  from assms(2,3) sc have "scan (nodes s) k (max_height s) (head s) = Some (Inr st)"
    using scan_skips_null_levels [of "max_height s" kMaxHeight "nodes s" "head s" k] by simp
  moreover from assms(2) have "max_height s < int (length (replicate (nat kMaxHeight) (None :: addr option)))"
    by (simp add: kMaxHeight_def)
  ultimately obtain preNode where
    "descend (nodes s) k (max_height s) (head s) (replicate (nat kMaxHeight) None) = Some (Inr (st, preNode))"
    using descend_follows_scan by blast
  with p t show ?thesis
    by (simp add: finds_def lookup_def)
qed

lemma Insert_of_contained_key:
  assumes "Contains s k = Some (Inr True)"
    and "max_height s < kMaxHeight"
    and "\<forall>l. max_height s < l \<and> l \<le> kMaxHeight \<longrightarrow> ptr_Next (nodes s) (Some (head s)) l = Inr None"
  shows "Insert room U s k = Some (Inr s)"
proof -
  from assms have "finds s k"
    by (rule Contains_true_finds)
  then show ?thesis
    by (auto simp: Insert_def finds_def split: option.splits sum.splits prod.splits)
qed

text \<open>
  But the search does not find the keys that \<open>Insert\<close> put there. On a list that the
  constructor built, every call of \<open>Insert\<close> that runs to its end appends nodes with its
  key, so each key inserted has a node.
\<close>

lemma count_list_replicate_same: "count_list (replicate n k) k = n"
  by (induction n) auto

lemma Insert_appends:
  assumes "Insert room U s k = Some (Inr s')" "\<not> finds s k"
  shows "\<exists>n. 1 \<le> n \<and> map key (nodes s') = map key (nodes s) @ replicate n k"
  using assms(1)
proof (cases rule: Insert_completes)
  case found
  with assms(2) show ?thesis by simp
next
  case (linked p preNode rh r')
  from link_in_keys [OF linked(6)] linked(4,5) show ?thesis
    by (auto split: if_splits)
qed

lemma run_keys:
  "run room U s cs = Some (Inr (rs, s')) \<Longrightarrow> level0_unused s \<Longrightarrow>
   \<exists>ks. map key (nodes s') = map key (nodes s) @ ks \<and> (\<forall>k. CallInsert k \<in> set cs \<longrightarrow> k \<in> set ks)"
proof (induction cs arbitrary: s rs)
  case Nil
  then show ?case by simp
next
  case (Cons c cs)
  show ?case
  proof (cases c)
    case (CallInsert k)
    with Cons.prems(1) obtain s1 rs1 where i: "Insert room U s k = Some (Inr s1)"
      and r: "run room U s1 cs = Some (Inr (rs1, s'))"
      by (auto split: option.splits sum.splits)
    from Cons.prems(2) have "\<not> finds s k"
      by (simp add: level0_unused_def finds_needs_level0)
    with i obtain n where n: "1 \<le> n" "map key (nodes s1) = map key (nodes s) @ replicate n k"
      using Insert_appends by blast
    from level0_unused_Insert [OF i Cons.prems(2)] Cons.IH [OF r] obtain ks where
      ks: "map key (nodes s') = map key (nodes s1) @ ks" "\<forall>k. CallInsert k \<in> set cs \<longrightarrow> k \<in> set ks"
      by blast
    from n ks CallInsert show ?thesis
      by (intro exI [of _ "replicate n k @ ks"]) auto
  next
    case (CallRemove k)
    with Cons.prems(1) obtain b s1 rs1 where i: "Remove s k = Some (Inr (b, s1))"
      and r: "run room U s1 cs = Some (Inr (rs1, s'))"
      by (auto split: option.splits sum.splits)
    from Remove_result [OF i] Cons.prems(2) Cons.IH [OF r] CallRemove show ?thesis by simp
  next
    case (CallContains k)
    with Cons.prems(1) obtain rs1 where r: "run room U s cs = Some (Inr (rs1, s'))"
      by (auto split: option.splits sum.splits)
    from Cons.IH [OF r Cons.prems(2)] CallContains show ?thesis by simp
  qed
qed

lemma SkipList_ctor_nodes: "SkipList_ctor room Rnd cmp = Inr s \<Longrightarrow> length (nodes s) = 1"
  by (auto simp: SkipList_ctor_def split: sum.splits)

text \<open>
  Claim C5 (the code does not do what the claim says). A list is constructed, calls are
  made on it that include \<open>Insert(k)\<close>, and \<open>Insert(k)\<close> is called once more and runs to its
  end, whatever room the vectors have and whatever the generator draws. Then \<open>k\<close> is the
  key of a node of the list, the test of line 190 does not find it, and the list holds
  more nodes with the key \<open>k\<close> after the call than before: the key is duplicated, where the
  claim has no node created. The search looks for the key on the link of index 0, which
  \<open>Insert\<close> never writes.
\<close>

theorem Insert_duplicates_a_present_key:
  assumes "SkipList_ctor room Rnd cmp = Inr s0"
    and "run room U s0 cs = Some (Inr (rs, s))"
    and "CallInsert k \<in> set cs"
    and "Insert room U s k = Some (Inr s')"
  shows "k \<in> set (map key (tl (nodes s))) \<and> \<not> finds s k \<and>
    count_list (map key (nodes s)) k < count_list (map key (nodes s')) k"
proof -
  from assms(1) have u0: "level0_unused s0"
    by (rule SkipList_ctor_level0_unused)
  with assms(2) have "level0_unused s"
    using run_level0_unused by blast
  then have nf: "\<not> finds s k"
    by (simp add: level0_unused_def finds_needs_level0)
  from run_keys [OF assms(2) u0] assms(3) obtain ks where
    ks: "map key (nodes s) = map key (nodes s0) @ ks" "k \<in> set ks"
    by blast
  from assms(1) obtain hn where "nodes s0 = [hn]"
    by (cases "nodes s0") (auto dest: SkipList_ctor_nodes)
  with ks have p: "k \<in> set (map key (tl (nodes s)))"
    by (cases "nodes s") auto
  from Insert_appends [OF assms(4) nf] obtain n where
    "1 \<le> n" "map key (nodes s') = map key (nodes s) @ replicate n k"
    by blast
  then have "count_list (map key (nodes s)) k < count_list (map key (nodes s')) k"
    by (simp add: count_list_replicate_same)
  with p nf show ?thesis
    by simp
qed

text \<open>
  With one element of room beyond the height: after \<open>Insert(5)\<close> on a new list, a second
  \<open>Insert(5)\<close> runs to its end and leaves two nodes with the key 5.
\<close>

theorem Insert_duplicates_a_present_key_witness:
  "SkipList_ctor one_more (\<lambda>_. ()) () = Inr roomy_list \<and>
   run one_more draw_1 roomy_list [CallInsert 5] =
     Some (Inr ([Returned],
       roomy_list\<lparr>nodes := [\<lparr>key = 0, nextv = [None, Some 1] @ replicate 11 None\<rparr>,
                              \<lparr>key = 5, nextv = [None, None]\<rparr>]\<rparr>)) \<and>
   CallInsert 5 \<in> set [CallInsert 5] \<and>
   Insert one_more draw_1
     (roomy_list\<lparr>nodes := [\<lparr>key = 0, nextv = [None, Some 1] @ replicate 11 None\<rparr>,
                            \<lparr>key = 5, nextv = [None, None]\<rparr>]\<rparr>) 5 =
     Some (Inr (roomy_list\<lparr>nodes := [\<lparr>key = 0, nextv = [None, Some 2] @ replicate 11 None\<rparr>,
                                     \<lparr>key = 5, nextv = [None, None]\<rparr>,
                                     \<lparr>key = 5, nextv = [None, Some 1]\<rparr>]\<rparr>)) \<and>
   5 \<in> set (map key (tl (nodes
     (roomy_list\<lparr>nodes := [\<lparr>key = 0, nextv = [None, Some 1] @ replicate 11 None\<rparr>,
                            \<lparr>key = 5, nextv = [None, None]\<rparr>]\<rparr>)))) \<and>
   \<not> finds (roomy_list\<lparr>nodes := [\<lparr>key = 0, nextv = [None, Some 1] @ replicate 11 None\<rparr>,
                                 \<lparr>key = 5, nextv = [None, None]\<rparr>]\<rparr>) 5 \<and>
   count_list (map key (nodes
     (roomy_list\<lparr>nodes := [\<lparr>key = 0, nextv = [None, Some 1] @ replicate 11 None\<rparr>,
                            \<lparr>key = 5, nextv = [None, None]\<rparr>]\<rparr>))) 5
   < count_list (map key (nodes
     (roomy_list\<lparr>nodes := [\<lparr>key = 0, nextv = [None, Some 2] @ replicate 11 None\<rparr>,
                            \<lparr>key = 5, nextv = [None, None]\<rparr>,
                            \<lparr>key = 5, nextv = [None, Some 1]\<rparr>]\<rparr>))) 5"
proof -
  have c: "SkipList_ctor one_more (\<lambda>_. ()) () = Inr roomy_list"
    by code_simp
  have r: "run one_more draw_1 roomy_list [CallInsert 5] =
     Some (Inr ([Returned],
       roomy_list\<lparr>nodes := [\<lparr>key = 0, nextv = [None, Some 1] @ replicate 11 None\<rparr>,
                              \<lparr>key = 5, nextv = [None, None]\<rparr>]\<rparr>))"
    by code_simp
  have m: "CallInsert 5 \<in> set [CallInsert 5]"
    by simp
  have i: "Insert one_more draw_1
     (roomy_list\<lparr>nodes := [\<lparr>key = 0, nextv = [None, Some 1] @ replicate 11 None\<rparr>,
                            \<lparr>key = 5, nextv = [None, None]\<rparr>]\<rparr>) 5 =
     Some (Inr (roomy_list\<lparr>nodes := [\<lparr>key = 0, nextv = [None, Some 2] @ replicate 11 None\<rparr>,
                                     \<lparr>key = 5, nextv = [None, None]\<rparr>,
                                     \<lparr>key = 5, nextv = [None, Some 1]\<rparr>]\<rparr>))"
    by code_simp
  from Insert_duplicates_a_present_key [OF c r m i] c r m i show ?thesis
    by blast
qed

text \<open>
  The same on a list laid out as the specification has it, the keys 1 and 3 chained at
  level 0: \<open>Contains(3)\<close> returns \<open>false\<close>, the search of \<open>Insert(3)\<close> stops at the node with
  key 1 and does not find 3, and \<open>Insert(3)\<close> links a second node with key 3 from the
  head (or, as written, fails in the constructor of that node).
\<close>

lemma Insert_misses_a_chained_key:
  "level_keys list_of_1_3 0 = [1, 3] \<and>
   Contains list_of_1_3 3 = Some (Inr False) \<and>
   \<not> finds list_of_1_3 3 \<and>
   Insert one_more draw_1 list_of_1_3 3 =
     Some (Inr (list_of_1_3\<lparr>nodes := [\<lparr>key = 0, nextv = [Some 1, Some 3] @ replicate 11 None\<rparr>,
                                      \<lparr>key = 1, nextv = [Some 2, None]\<rparr>,
                                      \<lparr>key = 3, nextv = [None, None]\<rparr>,
                                      \<lparr>key = 3, nextv = [None, None]\<rparr>]\<rparr>)) \<and>
   Insert as_written draw_1 list_of_1_3 3 = Some (Inl OutOfRange)"
  by code_simp

section \<open>Indices out of range\<close>

text \<open>
  On a head with at most \<open>kMaxHeight\<close> links, \<open>Contains\<close> fails on its first read.
\<close>

lemma Contains_out_of_range:
  assumes "head s < length (nodes s)" and "int (length (nextv (nodes s ! head s))) \<le> kMaxHeight"
  shows "Contains s k = Some (Inl OutOfRange)"
proof -
  from assms have "ptr_Next (nodes s) (Some (head s)) kMaxHeight = Inl OutOfRange"
    by (simp add: ptr_Next_def deref_def Next_def vec_get_def kMaxHeight_def)
  then have "advance (nodes s) k kMaxHeight (head s) = Some (Inl OutOfRange)"
    by (subst advance.simps) simp
  then have "scan (nodes s) k kMaxHeight (head s) = Some (Inl OutOfRange)"
    by (subst scan.simps) (simp add: kMaxHeight_def)
  then show ?thesis
    by (simp add: Contains_def)
qed

text \<open>
  Claim C6 (the code does not do what the claim says). As written, the constructor of a
  node writes \<open>next_[0]\<close> of an empty vector, and so the constructor of the list fails
  before any operation. With vectors resized to the height, the head has the indices 0 to
  11: \<open>Contains\<close> begins with \<open>head_->Next(12)\<close>, and \<open>Insert\<close> calls \<open>SetNext(1, ...)\<close> on a
  node created with height 1. Both are out of range, for every key. So is \<open>Next(1)\<close> in
  the iterator's \<open>Next()\<close>, on a node of height 1.
\<close>

theorem links_out_of_range:
  "Node_ctor as_written k 1 = Inl OutOfRange \<and>
   SkipList_ctor as_written Rnd cmp = Inl OutOfRange \<and>
   SkipList_ctor resized (\<lambda>_. ()) () = Inr empty_list \<and>
   Contains empty_list k = Some (Inl OutOfRange) \<and>
   Insert resized draw_1 empty_list k = Some (Inl OutOfRange) \<and>
   Iterator_Next list_of_5 \<lparr>node = Some 1, prevNode = Some 0\<rparr> = Inl OutOfRange"
proof -
  have n: "Node_ctor as_written k 1 = Inl OutOfRange"
    by (simp add: Node_ctor_def as_written_def init_next.simps vec_set_def)
  have a: "SkipList_ctor as_written Rnd cmp = Inl OutOfRange"
    by (simp add: SkipList_ctor_def Node_ctor_def as_written_def kMaxHeight_def init_next.simps
        vec_set_def)
  have r: "SkipList_ctor resized (\<lambda>_. ()) () = Inr empty_list"
    by code_simp
  have c: "Contains empty_list k = Some (Inl OutOfRange)"
    by (rule Contains_out_of_range) (simp_all add: empty_list_def kMaxHeight_def)
  have l: "lookup empty_list k = Some (Inr (None, (replicate 12 None)[1 := Some 0]))"
    by (simp add: lookup_def empty_list_def kMaxHeight_def descend.simps advance.simps
        ptr_Next_def deref_def Next_def vec_get_def vec_set_def)
  have h: "RandomHeight draw_1 () = (1, ())"
    by (simp add: RandomHeight_def RandomHeight_loop.simps draw_1_def)
  have w: "Node_ctor resized k 1 = Inr \<lparr>key = k, nextv = [None]\<rparr>"
    by (simp add: Node_ctor_def resized_def init_next.simps vec_set_def)
  have "Insert_new resized draw_1 empty_list k ((replicate 12 None)[1 := Some 0]) = Inl OutOfRange"
    by (simp add: Insert_new_def h link_in.simps NewNode_def w
        read_local_def vec_get_def vec_set_def ptr_Next_def ptr_SetNext_def deref_def Next_def
        SetNext_def empty_list_def)
  then have i: "Insert resized draw_1 empty_list k = Some (Inl OutOfRange)"
    by (simp add: Insert_def l key_is_def)
  have j: "Iterator_Next list_of_5 \<lparr>node = Some 1, prevNode = Some 0\<rparr> = Inl OutOfRange"
    by code_simp
  from n a r c i j show ?thesis
    by simp
qed

section \<open>The iterator\<close>

text \<open>
  Claim C7 (the code does not do what the claim says). After \<open>SeekToFirst\<close> the iterator
  is on the head and \<open>Valid\<close> is true, for every list. On the empty list, which has no key
  at level 0, \<open>Valid\<close> is true where the claim has false, and \<open>key()\<close> is the 0 stored in
  the head.
\<close>

theorem SeekToFirst_is_at_head:
  "Valid (SeekToFirst s it) \<and> node (SeekToFirst s it) = Some (head s) \<and>
   level_keys empty_list 0 = [] \<and>
   Valid (SeekToFirst empty_list it) \<and>
   Iterator_key empty_list (SeekToFirst empty_list it) = Inr 0"
  by (simp add: Valid_def SeekToFirst_def Iterator_key_def empty_list_def ptr_key_def deref_def
      level_keys_def ptr_Next_def Next_def vec_get_def)

section \<open>The height of the list\<close>



text \<open>
  When the first height drawn is 2: the constructor builds \<open>roomy_4\<close>, and \<open>Insert(5)\<close> on
  it stops at the reading of \<open>preNode[2]\<close>. As written, and with vectors resized to the
  height, the run fails on an index out of range before that.
\<close>

lemma Insert_of_height_2:
  "SkipList_ctor one_more two_high () = Inr roomy_4 \<and>
   fst (RandomHeight low_bits (rnd roomy_4)) = 2 \<and>
   Insert one_more low_bits roomy_4 5 = Some (Inl Uninitialized) \<and>
   run_new resized low_bits two_high () [CallInsert 5] = Some (Inl OutOfRange) \<and>
   run_new as_written low_bits two_high () [CallInsert 5] = Some (Inl OutOfRange)"
  by code_simp

section \<open>What the stack held\<close>

lemma Insert_on_unwritten:
  "Insert_on (replicate (nat kMaxHeight) None) room U s k = Insert room U s k"
  by (simp add: Insert_on_def Insert_def lookup_on_def lookup_def)


end
